theory Spec2Isabelle
  imports Complex_Main
begin

section \<open>Python values and exceptions\<close>

text \<open>
  The exceptions that the arithmetic of \<^verbatim>\<open>BloomFilterHW.py\<close> and its bit vector can
  raise. Every method of the class is modelled as a function from the object's state to
  the outcome of the call (\<open>Inl\<close> an exception, \<open>Inr\<close> the returned value) paired with
  the object's state when the call ends, so an exception leaves the object as the
  statements executed before it made it.
\<close>

datatype error = ZeroDivisionError | OverflowError | TypeError | ValueError | IndexOutOfRange

subsection \<open>Floats\<close>

text \<open>
  A Python float is an IEEE 754 binary64 number. A finite float is represented by the real
  number it denotes, and every operation rounds its exact result to the nearest binary64
  value, ties to even: \<open>rnd\<close> rounds with 53 significant bits, on the grid of
  \<open>2 powr (-1074)\<close> below the normal range, without a bound on the exponent above, and
  the result overflows when the rounded magnitude reaches \<open>2 ^ 1024\<close>. The C library's
  \<^verbatim>\<open>pow\<close>, which Python's \<^verbatim>\<open>**\<close> calls, is taken to round correctly as well.
  Infinities and NaN are not values of the model: no operation here returns one to the
  program except the last division of the sizing, whose overflow is the infinity that
  \<^verbatim>\<open>int()\<close> refuses.
\<close>

definition rne :: "real \<Rightarrow> int" where
  "rne r = (let f = \<lfloor>r\<rfloor> in
     if r - real_of_int f < 1/2 then f
     else if 1/2 < r - real_of_int f then f + 1
     else if even f then f else f + 1)"

definition expo :: "real \<Rightarrow> int" where
  "expo x = max (\<lfloor>log 2 \<bar>x\<bar>\<rfloor> - 52) (- 1074)"

definition rnd :: "real \<Rightarrow> real" where
  "rnd x = (if x = 0 then 0
            else sgn x * (real_of_int (rne (\<bar>x\<bar> / 2 powr real_of_int (expo x)))
                          * 2 powr real_of_int (expo x)))"

definition overflows :: "real \<Rightarrow> bool" where
  "overflows x = (2 ^ 1024 \<le> \<bar>rnd x\<bar>)"

text \<open>
  \<^verbatim>\<open>float(k)\<close> as done by the operators on an integer operand, and \<^verbatim>\<open>a / b\<close> on two
  integers: both round correctly and raise \<open>OverflowError\<close> out of range.
\<close>

definition int_to_float :: "int \<Rightarrow> error + real" where
  "int_to_float k =
     (if overflows (real_of_int k) then Inl OverflowError else Inr (rnd (real_of_int k)))"

definition int_truediv :: "int \<Rightarrow> int \<Rightarrow> error + real" where
  "int_truediv a b =
     (if b = 0 then Inl ZeroDivisionError
      else if overflows (real_of_int a / real_of_int b) then Inl OverflowError
      else Inr (rnd (real_of_int a / real_of_int b)))"

text \<open>
  \<^verbatim>\<open>x ** y\<close> on floats, in the order of CPython's cases: a zero exponent, a zero base, a
  negative base under a fractional exponent (the result is complex), then the library
  call, an overflow of which raises. A complex value is kept as the tag \<open>PComplex\<close> only:
  in \<open>bitsNeeded\<close> it stays complex through every later operation until \<^verbatim>\<open>int()\<close>
  refuses it (an overflow inside the complex operations themselves is not modelled).
\<close>

datatype pynum = PFloat real | PComplex

definition float_pow :: "real \<Rightarrow> real \<Rightarrow> error + pynum" where
  "float_pow x y =
     (if y = 0 then Inr (PFloat 1)
      else if x = 0 then (if y < 0 then Inl ZeroDivisionError else Inr (PFloat 0))
      else if x < 0 \<and> real_of_int \<lfloor>y\<rfloor> \<noteq> y then Inr PComplex
      else
        let v = (if x < 0 \<and> odd \<lfloor>y\<rfloor> then - (\<bar>x\<bar> powr y) else \<bar>x\<bar> powr y) in
        if overflows v then Inl OverflowError else Inr (PFloat (rnd v)))"

fun py_pow :: "pynum \<Rightarrow> real \<Rightarrow> error + pynum" where
  "py_pow (PFloat x) y = float_pow x y"
| "py_pow PComplex y = Inr PComplex"

definition py_pow_int :: "pynum \<Rightarrow> int \<Rightarrow> error + pynum" where
  "py_pow_int v k = (case int_to_float k of Inl e \<Rightarrow> Inl e | Inr y \<Rightarrow> py_pow v y)"

fun py_rsub :: "real \<Rightarrow> pynum \<Rightarrow> pynum" where
  "py_rsub c (PFloat x) = PFloat (rnd (c - x))"
| "py_rsub c PComplex = PComplex"

text \<open>\<^verbatim>\<open>int(x)\<close> of a finite float truncates towards zero.\<close>

definition float_to_int :: "real \<Rightarrow> int" where
  "float_to_int x = (if 0 \<le> x then \<lfloor>x\<rfloor> else \<lceil>x\<rceil>)"

section \<open>The bit vector\<close>

text \<open>
  Modelled from the spec: the class \<^verbatim>\<open>BitVector\<close> is imported by the source and its
  code is not part of it. The spec's Bit-Array collaborator has a constructor taking the
  size, all bits zero, a read and a write of one bit by index, and fails when the index
  is not below the size. A negative size is refused by the constructor (a length cannot
  be negative); size 0 gives the empty vector.
\<close>

type_synonym BitVector = "bool list"

definition BitVector_new :: "int \<Rightarrow> error + BitVector" where
  "BitVector_new sz = (if sz < 0 then Inl ValueError else Inr (replicate (nat sz) False))"

definition BitVector_get :: "BitVector \<Rightarrow> int \<Rightarrow> error + bool" where
  "BitVector_get bv i =
     (if 0 \<le> i \<and> i < int (length bv) then Inr (bv ! nat i) else Inl IndexOutOfRange)"

definition BitVector_set :: "BitVector \<Rightarrow> int \<Rightarrow> error + BitVector" where
  "BitVector_set bv i =
     (if 0 \<le> i \<and> i < int (length bv) then Inr (bv[nat i := True]) else Inl IndexOutOfRange)"

section \<open>The Bloom filter\<close>

text \<open>
  The fields of the object. \<open>maxFalsePositive\<close> is the value of a finite float.
\<close>

record BloomFilter =
  numKeys :: int
  numHashes :: int
  maxFalsePositive :: real
  numBits :: int
  bitVector :: BitVector
  bitCount :: int

text \<open>
  \<^verbatim>\<open>__bitsNeeded\<close>: \<^verbatim>\<open>phi = 1 - maxFalsePositive ** (1/numHashes)\<close>, then
  \<^verbatim>\<open>int(numHashes / (1 - phi ** (1/numKeys)))\<close>, in Python's order of evaluation. The
  last division converts \<^verbatim>\<open>numHashes\<close> to a float before it looks at the divisor.
\<close>

definition bitsNeeded :: "int \<Rightarrow> int \<Rightarrow> real \<Rightarrow> error + int" where
  "bitsNeeded n d P =
     (case int_truediv 1 d of
        Inl e \<Rightarrow> Inl e
      | Inr y1 \<Rightarrow>
     (case float_pow P y1 of
        Inl e \<Rightarrow> Inl e
      | Inr t \<Rightarrow>
     (let phi = py_rsub 1 t in
      case int_truediv 1 n of
        Inl e \<Rightarrow> Inl e
      | Inr y2 \<Rightarrow>
     (case py_pow phi y2 of
        Inl e \<Rightarrow> Inl e
      | Inr u \<Rightarrow>
     (case int_to_float d of
        Inl e \<Rightarrow> Inl e
      | Inr c \<Rightarrow>
     (case py_rsub 1 u of
        PComplex \<Rightarrow> Inl TypeError
      | PFloat den \<Rightarrow>
          if den = 0 then Inl ZeroDivisionError
          else if overflows (c / den) then Inl OverflowError
          else Inr (float_to_int (rnd (c / den)))))))))"

text \<open>\<^verbatim>\<open>__init__\<close>: no object exists when the sizing or the bit vector raises.\<close>

definition BloomFilter_init :: "int \<Rightarrow> int \<Rightarrow> real \<Rightarrow> error + BloomFilter" where
  "BloomFilter_init n d P =
     (case bitsNeeded n d P of
        Inl e \<Rightarrow> Inl e
      | Inr nb \<Rightarrow>
          (case BitVector_new nb of
             Inl e \<Rightarrow> Inl e
           | Inr bv \<Rightarrow>
               Inr \<lparr>numKeys = n, numHashes = d, maxFalsePositive = P,
                    numBits = nb, bitVector = bv, bitCount = 0\<rparr>))"

text \<open>
  The hash function \<^verbatim>\<open>BitHash(key, seed)\<close> is imported; it is the parameter \<open>H\<close>.
  The loops count the iterations that remain; \<open>a\<close> is the chained seed.
\<close>

fun insert_loop ::
  "('k \<Rightarrow> int \<Rightarrow> int) \<Rightarrow> 'k \<Rightarrow> nat \<Rightarrow> int \<Rightarrow> BloomFilter \<Rightarrow> (error + unit) \<times> BloomFilter" where
  "insert_loop H key 0 a s = (Inr (), s)"
| "insert_loop H key (Suc i) a s =
     (let hash = H key a in
      if numBits s = 0 then (Inl ZeroDivisionError, s)
      else
        let num = hash mod numBits s in
        case BitVector_get (bitVector s) num of
          Inl e \<Rightarrow> (Inl e, s)
        | Inr b \<Rightarrow>
            if \<not> b then
              (case BitVector_set (bitVector s) num of
                 Inl e \<Rightarrow> (Inl e, s)
               | Inr bv \<Rightarrow>
                   insert_loop H key i hash (s\<lparr>bitVector := bv, bitCount := bitCount s + 1\<rparr>))
            else insert_loop H key i hash s)"

definition insert_key ::
  "('k \<Rightarrow> int \<Rightarrow> int) \<Rightarrow> 'k \<Rightarrow> BloomFilter \<Rightarrow> (error + unit) \<times> BloomFilter" where
  "insert_key H key s = insert_loop H key (nat (numHashes s)) 0 s"

fun find_loop ::
  "('k \<Rightarrow> int \<Rightarrow> int) \<Rightarrow> 'k \<Rightarrow> nat \<Rightarrow> int \<Rightarrow> BloomFilter \<Rightarrow> error + bool" where
  "find_loop H key 0 a s = Inr True"
| "find_loop H key (Suc i) a s =
     (let hash = H key a in
      if numBits s = 0 then Inl ZeroDivisionError
      else
        let num = hash mod numBits s in
        case BitVector_get (bitVector s) num of
          Inl e \<Rightarrow> Inl e
        | Inr b \<Rightarrow> if \<not> b then Inr False else find_loop H key i hash s)"

definition find_key ::
  "('k \<Rightarrow> int \<Rightarrow> int) \<Rightarrow> 'k \<Rightarrow> BloomFilter \<Rightarrow> (error + bool) \<times> BloomFilter" where
  "find_key H key s = (find_loop H key (nat (numHashes s)) 0 s, s)"

definition falsePositiveRate :: "BloomFilter \<Rightarrow> (error + pynum) \<times> BloomFilter" where
  "falsePositiveRate s =
     ((case int_truediv (numHashes s) (bitCount s) of
         Inl e \<Rightarrow> Inl e
       | Inr q \<Rightarrow>
           (case py_pow_int (PFloat (rnd (1 - q))) (numKeys s) of
              Inl e \<Rightarrow> Inl e
            | Inr phi \<Rightarrow> py_pow_int (py_rsub 1 phi) (numHashes s))), s)"

definition numBitsSet :: "BloomFilter \<Rightarrow> (error + int) \<times> BloomFilter" where
  "numBitsSet s = (Inr (bitCount s), s)"

subsection \<open>The indices a call probes\<close>

text \<open>
  The indices \<^verbatim>\<open>num\<close> at which each loop reads \<^verbatim>\<open>self.__bitVector[num]\<close>, in order:
  the same recursions as the loops, collecting the index of every read.
\<close>

fun insert_probes_loop ::
  "('k \<Rightarrow> int \<Rightarrow> int) \<Rightarrow> 'k \<Rightarrow> nat \<Rightarrow> int \<Rightarrow> BloomFilter \<Rightarrow> int list" where
  "insert_probes_loop H key 0 a s = []"
| "insert_probes_loop H key (Suc i) a s =
     (let hash = H key a in
      if numBits s = 0 then []
      else
        let num = hash mod numBits s in
        case BitVector_get (bitVector s) num of
          Inl e \<Rightarrow> [num]
        | Inr b \<Rightarrow>
            if \<not> b then
              (case BitVector_set (bitVector s) num of
                 Inl e \<Rightarrow> [num]
               | Inr bv \<Rightarrow>
                   num # insert_probes_loop H key i hash
                           (s\<lparr>bitVector := bv, bitCount := bitCount s + 1\<rparr>))
            else num # insert_probes_loop H key i hash s)"

definition insert_probes :: "('k \<Rightarrow> int \<Rightarrow> int) \<Rightarrow> 'k \<Rightarrow> BloomFilter \<Rightarrow> int list" where
  "insert_probes H key s = insert_probes_loop H key (nat (numHashes s)) 0 s"

fun find_probes_loop ::
  "('k \<Rightarrow> int \<Rightarrow> int) \<Rightarrow> 'k \<Rightarrow> nat \<Rightarrow> int \<Rightarrow> BloomFilter \<Rightarrow> int list" where
  "find_probes_loop H key 0 a s = []"
| "find_probes_loop H key (Suc i) a s =
     (let hash = H key a in
      if numBits s = 0 then []
      else
        let num = hash mod numBits s in
        case BitVector_get (bitVector s) num of
          Inl e \<Rightarrow> [num]
        | Inr b \<Rightarrow> if \<not> b then [num] else num # find_probes_loop H key i hash s)"

definition find_probes :: "('k \<Rightarrow> int \<Rightarrow> int) \<Rightarrow> 'k \<Rightarrow> BloomFilter \<Rightarrow> int list" where
  "find_probes H key s = find_probes_loop H key (nat (numHashes s)) 0 s"

subsection \<open>Sequences of calls\<close>

text \<open>
  A caller's sequence of method calls on one filter object. A call that raises leaves the
  object in the state it had at the raise, and the next call runs on that state.
\<close>

datatype 'k call = Insert 'k | Find 'k | NumBitsSet | FalsePositiveRate

fun after_call :: "('k \<Rightarrow> int \<Rightarrow> int) \<Rightarrow> BloomFilter \<Rightarrow> 'k call \<Rightarrow> BloomFilter" where
  "after_call H s (Insert key) = snd (insert_key H key s)"
| "after_call H s (Find key) = snd (find_key H key s)"
| "after_call H s NumBitsSet = snd (numBitsSet s)"
| "after_call H s FalsePositiveRate = snd (falsePositiveRate s)"

definition after_calls :: "('k \<Rightarrow> int \<Rightarrow> int) \<Rightarrow> 'k call list \<Rightarrow> BloomFilter \<Rightarrow> BloomFilter" where
  "after_calls H cs s = foldl (after_call H) s cs"

text \<open>The number of indices of the bit vector that hold 1, by a full scan.\<close>

definition ones :: "BitVector \<Rightarrow> int" where
  "ones bv = int (length (filter (\<lambda>b. b) bv))"

subsection \<open>Invariants\<close>

text \<open>
  The bit vector has \<open>numBits\<close> bits, and the cached count is the number of bits set.
\<close>

definition wf :: "BloomFilter \<Rightarrow> bool" where
  "wf s = (0 \<le> numBits s \<and> length (bitVector s) = nat (numBits s))"

definition inv :: "BloomFilter \<Rightarrow> bool" where
  "inv s = (wf s \<and> bitCount s = ones (bitVector s))"

definition bits_le :: "BloomFilter \<Rightarrow> BloomFilter \<Rightarrow> bool" where
  "bits_le s t =
     (numBits t = numBits s \<and> numHashes t = numHashes s \<and>
      length (bitVector t) = length (bitVector s) \<and>
      (\<forall>j < length (bitVector s). bitVector s ! j \<longrightarrow> bitVector t ! j))"

text \<open>
  The probe sequence in the spec's words (sections 4.2 and 4.3): the seed starts at the
  given \<open>a\<close> (0 in both operations); each of the \<open>i\<close> iterations computes
  \<open>h = SeededHash(key, a)\<close>, probes index \<open>h mod numBits\<close>, and sets \<open>a = h\<close>.
\<close>

fun spec_probes :: "('k \<Rightarrow> int \<Rightarrow> int) \<Rightarrow> 'k \<Rightarrow> nat \<Rightarrow> int \<Rightarrow> int \<Rightarrow> int list" where
  "spec_probes H key 0 a nb = []"
| "spec_probes H key (Suc i) a nb = (H key a mod nb) # spec_probes H key i (H key a) nb"

text \<open>A hash function for the concrete examples: keys are integers.\<close>

definition sample_hash :: "int \<Rightarrow> int \<Rightarrow> int" where
  "sample_hash key seed = key + seed + 1"

section \<open>Rounding\<close>

lemma rne_lower: "real_of_int z \<le> r \<Longrightarrow> z \<le> rne r"
proof -
  assume "real_of_int z \<le> r"
  then have "z \<le> \<lfloor>r\<rfloor>" by (simp add: le_floor_iff)
  moreover have "\<lfloor>r\<rfloor> \<le> rne r" by (simp add: rne_def Let_def)
  ultimately show ?thesis by simp
qed

lemma rne_upper: "r \<le> real_of_int z \<Longrightarrow> rne r \<le> z"
proof (cases "r = real_of_int z")
  case True
  then show ?thesis by (simp add: rne_def)
next
  case False
  assume "r \<le> real_of_int z"
  with False have "r < real_of_int z" by simp
  then have "\<lfloor>r\<rfloor> < z" by (simp add: floor_less_iff)
  moreover have "rne r \<le> \<lfloor>r\<rfloor> + 1" by (simp add: rne_def Let_def)
  ultimately show ?thesis by simp
qed

lemma rne_nonneg: "0 \<le> r \<Longrightarrow> 0 \<le> rne r"
  using rne_lower[of 0 r] by simp

lemma rnd_zero [simp]: "rnd 0 = 0"
  by (simp add: rnd_def)

lemma expo_minus [simp]: "expo (- x) = expo x"
  by (simp add: expo_def)

lemma rnd_minus [simp]: "rnd (- x) = - rnd x"
  by (simp add: rnd_def)

lemma rnd_nonneg: "0 \<le> x \<Longrightarrow> 0 \<le> rnd x"
  by (simp add: rnd_def rne_nonneg sgn_real_def)

lemma rnd_abs: "\<bar>rnd x\<bar> = rnd \<bar>x\<bar>"
proof (cases "0 \<le> x")
  case True
  then show ?thesis using rnd_nonneg[of x] by simp
next
  case False
  then have "0 \<le> rnd (- x)" by (intro rnd_nonneg) simp
  then show ?thesis using False by simp
qed

lemma two_powr_int: "0 \<le> i \<Longrightarrow> 2 powr real_of_int i = real_of_int (2 ^ nat i)"
  by (simp add: powr_real_of_int)

lemma rnd_pos_eq:
  "0 < x \<Longrightarrow> rnd x = real_of_int (rne (x / 2 powr real_of_int (expo x))) * 2 powr real_of_int (expo x)"
  by (simp add: rnd_def)

lemma expo_cases:
  assumes "0 < x"
  shows "2 powr real_of_int \<lfloor>log 2 x\<rfloor> \<le> x" and "- 1074 \<le> expo x"
    and "expo x = - 1074 \<or> expo x = \<lfloor>log 2 x\<rfloor> - 52"
proof -
  have "\<lfloor>log 2 x\<rfloor> = \<lfloor>log 2 x\<rfloor>" ..
  then show "2 powr real_of_int \<lfloor>log 2 x\<rfloor> \<le> x"
    using floor_log_eq_powr_iff[of x 2 "\<lfloor>log 2 x\<rfloor>"] assms by simp
  show "- 1074 \<le> expo x" using assms by (simp add: expo_def)
  show "expo x = - 1074 \<or> expo x = \<lfloor>log 2 x\<rfloor> - 52"
    using assms by (auto simp: expo_def max_def)
qed

lemma expo_upper:
  assumes "0 < x"
  shows "x < 2 powr real_of_int (\<lfloor>log 2 x\<rfloor> + 1)"
proof -
  have "\<lfloor>log 2 x\<rfloor> = \<lfloor>log 2 x\<rfloor>" ..
  then show ?thesis
    using floor_log_eq_powr_iff[of x 2 "\<lfloor>log 2 x\<rfloor>"] assms by simp
qed

lemma rnd_ge_pow2:
  assumes j: "- 1074 \<le> j" and x: "2 powr real_of_int j \<le> x"
  shows "2 powr real_of_int j \<le> rnd x"
proof -
  have pos: "0 < x" using x by (smt (verit) powr_gt_zero)
  define e where "e = expo x"
  define k where "k = \<lfloor>log 2 x\<rfloor>"
  have ep: "0 < 2 powr real_of_int e" by simp
  show ?thesis
  proof (cases "e \<le> j")
    case True
    then have "2 powr real_of_int (j - e) = real_of_int (2 ^ nat (j - e))"
      by (intro two_powr_int) simp
    moreover have "2 powr real_of_int (j - e) = 2 powr real_of_int j / 2 powr real_of_int e"
      by (simp add: powr_diff)
    ultimately have "real_of_int (2 ^ nat (j - e)) \<le> x / 2 powr real_of_int e"
      using x ep by (simp add: divide_right_mono)
    then have "2 ^ nat (j - e) \<le> rne (x / 2 powr real_of_int e)" by (rule rne_lower)
    then have "real_of_int (2 ^ nat (j - e)) \<le> real_of_int (rne (x / 2 powr real_of_int e))"
      by (simp only: of_int_le_iff)
    then have "real_of_int (2 ^ nat (j - e)) * 2 powr real_of_int e \<le> rnd x"
      using ep unfolding rnd_pos_eq[OF pos] e_def[symmetric] by (simp add: mult_right_mono)
    moreover have "real_of_int (2 ^ nat (j - e)) * 2 powr real_of_int e = 2 powr real_of_int j"
      using \<open>2 powr real_of_int (j - e) = real_of_int (2 ^ nat (j - e))\<close>
        \<open>2 powr real_of_int (j - e) = 2 powr real_of_int j / 2 powr real_of_int e\<close>
      by simp
    ultimately show ?thesis by simp
  next
    case False
    then have e: "e = k - 52" using expo_cases(3)[OF pos] j by (auto simp: e_def k_def)
    have "2 powr real_of_int k \<le> x" using expo_cases(1)[OF pos] by (simp add: k_def)
    then have "2 powr real_of_int k / 2 powr real_of_int e \<le> x / 2 powr real_of_int e"
      using ep by (simp add: divide_right_mono)
    moreover have "2 powr real_of_int k / 2 powr real_of_int e = real_of_int (2 ^ 52)"
      using two_powr_int[of 52] by (simp add: e powr_diff[symmetric])
    ultimately have "real_of_int (2 ^ 52) \<le> x / 2 powr real_of_int e" by simp
    then have "2 ^ 52 \<le> rne (x / 2 powr real_of_int e)" by (rule rne_lower)
    then have "real_of_int (2 ^ 52) \<le> real_of_int (rne (x / 2 powr real_of_int e))"
      by (simp only: of_int_le_iff)
    then have "real_of_int (2 ^ 52) * 2 powr real_of_int e \<le> rnd x"
      using ep unfolding rnd_pos_eq[OF pos] e_def[symmetric] by (simp add: mult_right_mono)
    moreover have "real_of_int (2 ^ 52) * 2 powr real_of_int e = (2::real) powr real_of_int k"
    proof -
      have "2 powr real_of_int k = 2 powr (52 + real_of_int e)" by (simp add: e)
      also have "\<dots> = 2 powr 52 * 2 powr real_of_int e" by (rule powr_add)
      also have "(2::real) powr 52 = real_of_int (2 ^ 52)" using two_powr_int[of 52] by simp
      finally show ?thesis by simp
    qed
    ultimately have B: "(2::real) powr real_of_int k \<le> rnd x" by simp
    have A: "(2::real) powr real_of_int j \<le> 2 powr real_of_int k"
      using False e by (intro powr_mono) simp_all
    show ?thesis using A B by (rule order_trans)
  qed
qed

lemma rnd_le_pow2:
  assumes j: "- 1074 \<le> j" and x0: "0 \<le> x" and x: "x \<le> 2 powr real_of_int j"
  shows "rnd x \<le> 2 powr real_of_int j"
proof (cases "x = 0")
  case True
  then show ?thesis by simp
next
  case False
  then have pos: "0 < x" using x0 by simp
  define e where "e = expo x"
  define k where "k = \<lfloor>log 2 x\<rfloor>"
  have ep: "0 < 2 powr real_of_int e" by simp
  have "e \<le> j"
  proof (rule ccontr)
    assume "\<not> e \<le> j"
    then have e: "e = k - 52" using expo_cases(3)[OF pos] j by (auto simp: e_def k_def)
    have "2 powr real_of_int k \<le> x" using expo_cases(1)[OF pos] by (simp add: k_def)
    then have "(2::real) powr real_of_int k \<le> 2 powr real_of_int j" using x by (rule order_trans)
    then have "k \<le> j" by simp
    then show False using \<open>\<not> e \<le> j\<close> e by simp
  qed
  then have a: "2 powr real_of_int (j - e) = real_of_int (2 ^ nat (j - e))"
    by (intro two_powr_int) simp
  have b: "2 powr real_of_int (j - e) = 2 powr real_of_int j / 2 powr real_of_int e"
    by (simp add: powr_diff)
  have "x / 2 powr real_of_int e \<le> real_of_int (2 ^ nat (j - e))"
    using x ep a b by (simp add: divide_right_mono)
  then have "rne (x / 2 powr real_of_int e) \<le> 2 ^ nat (j - e)" by (rule rne_upper)
  then have "real_of_int (rne (x / 2 powr real_of_int e)) \<le> real_of_int (2 ^ nat (j - e))"
    by (simp only: of_int_le_iff)
  then have "rnd x \<le> real_of_int (2 ^ nat (j - e)) * 2 powr real_of_int e"
    using ep unfolding rnd_pos_eq[OF pos] e_def[symmetric] by (simp add: mult_right_mono)
  moreover have "real_of_int (2 ^ nat (j - e)) * 2 powr real_of_int e = 2 powr real_of_int j"
    using a b by simp
  ultimately show ?thesis by simp
qed

lemma rnd_pow2: "- 1074 \<le> j \<Longrightarrow> rnd (2 powr real_of_int j) = 2 powr real_of_int j"
  using rnd_ge_pow2[of j "2 powr real_of_int j"] rnd_le_pow2[of j "2 powr real_of_int j"]
  by simp

lemma rnd_1 [simp]: "rnd 1 = 1"
  using rnd_pow2[of 0] by simp

lemma rnd_2 [simp]: "rnd 2 = 2"
  using rnd_pow2[of 1] by simp

lemma rnd_4 [simp]: "rnd 4 = 4"
  using rnd_pow2[of 2] by simp

lemma rnd_half [simp]: "rnd (1/2) = 1/2"
  using rnd_pow2[of "-1"] by (simp add: powr_minus_divide)

lemma rnd_le_1: "0 \<le> x \<Longrightarrow> x \<le> 1 \<Longrightarrow> rnd x \<le> 1"
  using rnd_le_pow2[of 0 x] by simp

lemma rnd_ge_1: "1 \<le> x \<Longrightarrow> 1 \<le> rnd x"
  using rnd_ge_pow2[of 0 x] by simp

lemma not_overflows_le_1: "\<bar>x\<bar> \<le> 1 \<Longrightarrow> \<not> overflows x"
proof -
  assume "\<bar>x\<bar> \<le> 1"
  then have "rnd \<bar>x\<bar> \<le> 1" by (intro rnd_le_1) simp_all
  then have "\<bar>rnd x\<bar> \<le> 1" by (simp add: rnd_abs)
  moreover have "(1::real) < 2 ^ 1024" by simp
  ultimately show ?thesis unfolding overflows_def by linarith
qed

section \<open>What insert preserves\<close>

lemma insert_loop_numBits [simp]: "numBits (snd (insert_loop H k i a s)) = numBits s"
  by (induction i arbitrary: a s) (auto simp: Let_def split: sum.splits)

lemma insert_loop_numHashes [simp]: "numHashes (snd (insert_loop H k i a s)) = numHashes s"
  by (induction i arbitrary: a s) (auto simp: Let_def split: sum.splits)

lemma insert_loop_numKeys [simp]: "numKeys (snd (insert_loop H k i a s)) = numKeys s"
  by (induction i arbitrary: a s) (auto simp: Let_def split: sum.splits)

lemma insert_loop_maxFalsePositive [simp]:
  "maxFalsePositive (snd (insert_loop H k i a s)) = maxFalsePositive s"
  by (induction i arbitrary: a s) (auto simp: Let_def split: sum.splits)

lemma insert_loop_length [simp]:
  "length (bitVector (snd (insert_loop H k i a s))) = length (bitVector s)"
  by (induction i arbitrary: a s)
     (auto simp: Let_def BitVector_set_def split: sum.splits if_splits)

lemma insert_loop_mono:
  "j < length (bitVector s) \<Longrightarrow> bitVector s ! j \<Longrightarrow> bitVector (snd (insert_loop H k i a s)) ! j"
proof (induction i arbitrary: a s)
  case 0
  then show ?case by simp
next
  case (Suc i)
  show ?case
  proof (cases "numBits s = 0")
    case True
    then show ?thesis using Suc.prems by simp
  next
    case nz: False
    let ?num = "H k a mod numBits s"
    show ?thesis
    proof (cases "BitVector_get (bitVector s) ?num")
      case (Inl e)
      then show ?thesis using Suc.prems nz by (simp add: Let_def)
    next
      case (Inr b)
      show ?thesis
      proof (cases b)
        case True
        then show ?thesis using Suc nz Inr by (simp add: Let_def)
      next
        case False
        from Inr have rng: "0 \<le> ?num" "?num < int (length (bitVector s))"
          by (auto simp: BitVector_get_def split: if_splits)
        let ?s1 = "s\<lparr>bitVector := (bitVector s)[nat ?num := True], bitCount := bitCount s + 1\<rparr>"
        have "bitVector ?s1 ! j" using Suc.prems by (cases "nat ?num = j") simp_all
        moreover have "j < length (bitVector ?s1)" using Suc.prems by simp
        ultimately have "bitVector (snd (insert_loop H k i (H k a) ?s1)) ! j"
          by (rule Suc.IH[rotated])
        then show ?thesis using nz Inr False rng
          by (simp add: Let_def BitVector_set_def)
      qed
    qed
  qed
qed

lemma ones_le_length: "ones bv \<le> int (length bv)"
  by (simp add: ones_def)

lemma ones_nonneg: "0 \<le> ones bv"
  by (simp add: ones_def)

lemma ones_replicate_False [simp]: "ones (replicate m False) = 0"
  by (simp add: ones_def)

lemma ones_set:
  "j < length bv \<Longrightarrow> \<not> bv ! j \<Longrightarrow> ones (bv[j := True]) = ones bv + 1"
proof (induction bv arbitrary: j)
  case Nil
  then show ?case by simp
next
  case (Cons b bv)
  then show ?case by (cases j) (auto simp: ones_def)
qed

lemma insert_loop_inv: "inv s \<Longrightarrow> inv (snd (insert_loop H k i a s))"
proof (induction i arbitrary: a s)
  case 0
  then show ?case by simp
next
  case (Suc i)
  show ?case
  proof (cases "numBits s = 0")
    case True
    then show ?thesis using Suc.prems by simp
  next
    case nz: False
    let ?num = "H k a mod numBits s"
    show ?thesis
    proof (cases "BitVector_get (bitVector s) ?num")
      case (Inl e)
      then show ?thesis using Suc.prems nz by (simp add: Let_def)
    next
      case (Inr b)
      show ?thesis
      proof (cases b)
        case True
        then show ?thesis using Suc nz Inr by (simp add: Let_def)
      next
        case False
        from Inr False have rng: "0 \<le> ?num" "?num < int (length (bitVector s))"
          and zero: "\<not> bitVector s ! nat ?num"
          by (auto simp: BitVector_get_def split: if_splits)
        let ?s1 = "s\<lparr>bitVector := (bitVector s)[nat ?num := True], bitCount := bitCount s + 1\<rparr>"
        have "inv ?s1" using Suc.prems rng zero
          by (simp add: inv_def wf_def ones_set)
        then have "inv (snd (insert_loop H k i (H k a) ?s1))" by (rule Suc.IH)
        then show ?thesis using nz Inr False rng
          by (simp add: Let_def BitVector_set_def)
      qed
    qed
  qed
qed

section \<open>Monotone bits, calls and construction\<close>

lemma bits_le_refl: "bits_le s s"
  by (simp add: bits_le_def)

lemma bits_le_trans: "bits_le s t \<Longrightarrow> bits_le t u \<Longrightarrow> bits_le s u"
  by (simp add: bits_le_def)

lemma insert_loop_bits_le: "bits_le s (snd (insert_loop H k i a s))"
  by (simp add: bits_le_def insert_loop_mono)

lemma after_call_bits_le: "bits_le s (after_call H s c)"
  by (cases c)
     (simp_all add: insert_key_def find_key_def numBitsSet_def falsePositiveRate_def
        insert_loop_bits_le bits_le_refl)

lemma after_calls_bits_le: "bits_le s (after_calls H cs s)"
  unfolding after_calls_def
proof (induction cs arbitrary: s)
  case Nil
  show ?case by (simp add: bits_le_refl)
next
  case (Cons c cs)
  have "bits_le s (after_call H s c)" by (rule after_call_bits_le)
  moreover have "bits_le (after_call H s c) (foldl (after_call H) (after_call H s c) cs)"
    by (rule Cons.IH)
  ultimately show ?case by (simp add: bits_le_trans)
qed

lemma after_call_inv: "inv s \<Longrightarrow> inv (after_call H s c)"
  by (cases c)
     (simp_all add: insert_key_def find_key_def numBitsSet_def falsePositiveRate_def
        insert_loop_inv)

lemma after_calls_inv: "inv s \<Longrightarrow> inv (after_calls H cs s)"
  unfolding after_calls_def
  by (induction cs arbitrary: s) (simp_all add: after_call_inv)

lemma after_calls_append:
  "after_calls H (cs1 @ cs2) s = after_calls H cs2 (after_calls H cs1 s)"
  by (simp add: after_calls_def)

lemma after_calls_Cons:
  "after_calls H (c # cs) s = after_calls H cs (after_call H s c)"
  by (simp add: after_calls_def)

lemma find_loop_mono:
  "bits_le s t \<Longrightarrow> find_loop H k i a s = Inr True \<Longrightarrow> find_loop H k i a t = Inr True"
proof (induction i arbitrary: a)
  case 0
  show ?case by simp
next
  case (Suc i)
  let ?num = "H k a mod numBits s"
  from Suc.prems(2) have nz: "numBits s \<noteq> 0"
    by (auto simp: Let_def split: if_splits)
  from Suc.prems(2) nz have get: "BitVector_get (bitVector s) ?num = Inr True"
    and rest: "find_loop H k i (H k a) s = Inr True"
    by (auto simp: Let_def split: sum.splits if_splits)
  from get have rng: "0 \<le> ?num" "?num < int (length (bitVector s))" "bitVector s ! nat ?num"
    by (auto simp: BitVector_get_def split: if_splits)
  from rng Suc.prems(1) have "BitVector_get (bitVector t) ?num = Inr True"
    by (simp add: BitVector_get_def bits_le_def)
  moreover have "find_loop H k i (H k a) t = Inr True"
    using Suc.prems(1) rest by (rule Suc.IH)
  moreover have "numBits t = numBits s" using Suc.prems(1) by (simp add: bits_le_def)
  ultimately show ?case using nz by (simp add: Let_def)
qed

lemma insert_loop_ok:
  "wf s \<Longrightarrow> 1 \<le> numBits s \<Longrightarrow>
   fst (insert_loop H k i a s) = Inr () \<and>
   find_loop H k i a (snd (insert_loop H k i a s)) = Inr True"
proof (induction i arbitrary: a s)
  case 0
  show ?case by simp
next
  case (Suc i)
  let ?num = "H k a mod numBits s"
  let ?s1 = "s\<lparr>bitVector := (bitVector s)[nat ?num := True], bitCount := bitCount s + 1\<rparr>"
  from Suc.prems have nz: "numBits s \<noteq> 0" by simp
  from Suc.prems have rng: "0 \<le> ?num" "?num < int (length (bitVector s))"
    by (simp_all add: wf_def)
  then have get: "BitVector_get (bitVector s) ?num = Inr (bitVector s ! nat ?num)"
    and set: "BitVector_set (bitVector s) ?num = Inr ((bitVector s)[nat ?num := True])"
    by (simp_all add: BitVector_get_def BitVector_set_def)
  define s2 where "s2 = (if bitVector s ! nat ?num then s else ?s1)"
  have step: "insert_loop H k (Suc i) a s = insert_loop H k i (H k a) s2"
    using nz get set by (simp add: Let_def s2_def)
  have wf2: "wf s2" "1 \<le> numBits s2" using Suc.prems by (simp_all add: s2_def wf_def)
  have nb2: "numBits s2 = numBits s" and len2: "length (bitVector s2) = length (bitVector s)"
    by (simp_all add: s2_def)
  have bit2: "bitVector s2 ! nat ?num" using rng by (simp add: s2_def)
  let ?s3 = "snd (insert_loop H k i (H k a) s2)"
  from Suc.IH[OF wf2] have ok: "fst (insert_loop H k i (H k a) s2) = Inr ()"
    and fnd: "find_loop H k i (H k a) ?s3 = Inr True" by simp_all
  have "bitVector ?s3 ! nat ?num"
    using rng bit2 len2 by (intro insert_loop_mono) simp_all
  then have "BitVector_get (bitVector ?s3) ?num = Inr True"
    using rng len2 by (simp add: BitVector_get_def)
  then have "find_loop H k (Suc i) a ?s3 = Inr True"
    using nz nb2 fnd by (simp add: Let_def)
  then show ?case using ok step by simp
qed

lemma init_fresh:
  "BloomFilter_init n d P = Inr s \<Longrightarrow>
   numKeys s = n \<and> numHashes s = d \<and> maxFalsePositive s = P \<and> 0 \<le> numBits s \<and>
   bitVector s = replicate (nat (numBits s)) False \<and> bitCount s = 0"
  by (auto simp: BloomFilter_init_def BitVector_new_def split: sum.splits if_splits)

lemma init_inv: "BloomFilter_init n d P = Inr s \<Longrightarrow> inv s"
  by (drule init_fresh) (simp add: inv_def wf_def)

lemma int_truediv_unit:
  assumes "1 \<le> d"
  shows "\<exists>y. int_truediv 1 d = Inr y \<and> 0 \<le> y \<and> y \<le> 1"
proof -
  let ?q = "1 / real_of_int d"
  have q: "0 \<le> ?q" "?q \<le> 1" using assms by simp_all
  then have "\<not> overflows ?q" by (intro not_overflows_le_1) simp
  moreover have "0 \<le> rnd ?q" using q by (intro rnd_nonneg)
  moreover have "rnd ?q \<le> 1" using q by (intro rnd_le_1)
  ultimately show ?thesis using assms by (simp add: int_truediv_def)
qed

lemma float_pow_unit:
  assumes "0 \<le> x" "x \<le> 1" "0 \<le> y"
  shows "\<exists>t. float_pow x y = Inr (PFloat t) \<and> 0 \<le> t \<and> t \<le> 1"
proof (cases "y = 0 \<or> x = 0")
  case True
  then show ?thesis using assms by (auto simp: float_pow_def)
next
  case False
  then have x: "0 < x" and y: "0 < y" using assms by simp_all
  let ?v = "x powr y"
  have v0: "0 \<le> ?v" by simp
  have v1: "?v \<le> 1" using assms by (intro powr_le1) simp_all
  have "\<bar>?v\<bar> \<le> 1" using v0 v1 by simp
  then have "\<not> overflows ?v" by (rule not_overflows_le_1)
  moreover have "0 \<le> rnd ?v" using v0 by (rule rnd_nonneg)
  moreover have "rnd ?v \<le> 1" using v0 v1 by (rule rnd_le_1)
  ultimately show ?thesis using x y by (simp add: float_pow_def)
qed

lemma rsub_unit: "0 \<le> t \<Longrightarrow> t \<le> 1 \<Longrightarrow> 0 \<le> rnd (1 - t) \<and> rnd (1 - t) \<le> 1"
  by (simp add: rnd_nonneg rnd_le_1)

lemma float_to_int_ge_1: "1 \<le> x \<Longrightarrow> 1 \<le> float_to_int x"
  by (simp add: float_to_int_def le_floor_iff)

lemma bitsNeeded_valid:
  assumes valid: "1 \<le> n" "1 \<le> d" "0 < P" "P < 1"
    and ret: "bitsNeeded n d P = Inr nb"
  shows "1 \<le> nb"
proof -
  from int_truediv_unit[OF valid(2)] obtain y1
    where y1: "int_truediv 1 d = Inr y1" "0 \<le> y1" by blast
  from float_pow_unit[of P y1] valid y1 obtain t
    where t: "float_pow P y1 = Inr (PFloat t)" "0 \<le> t" "t \<le> 1" by auto
  define phi where "phi = rnd (1 - t)"
  have phi: "0 \<le> phi" "phi \<le> 1" using rsub_unit[OF t(2,3)] by (simp_all add: phi_def)
  from int_truediv_unit[OF valid(1)] obtain y2
    where y2: "int_truediv 1 n = Inr y2" "0 \<le> y2" by blast
  from float_pow_unit[OF phi y2(2)] obtain u
    where u: "float_pow phi y2 = Inr (PFloat u)" "0 \<le> u" "u \<le> 1" by auto
  define den where "den = rnd (1 - u)"
  have den: "0 \<le> den" "den \<le> 1" using rsub_unit[OF u(2,3)] by (simp_all add: den_def)
  define c where "c = rnd (real_of_int d)"
  have c: "1 \<le> c" unfolding c_def using valid(2) by (intro rnd_ge_1) simp
  have unfolded: "bitsNeeded n d P =
      (if overflows (real_of_int d) then Inl OverflowError
       else if den = 0 then Inl ZeroDivisionError
       else if overflows (c / den) then Inl OverflowError
       else Inr (float_to_int (rnd (c / den))))"
    using y1 t y2 u
    by (simp add: bitsNeeded_def Let_def phi_def[symmetric] den_def[symmetric]
        int_to_float_def c_def[symmetric])
  from ret unfolded have dpos: "den \<noteq> 0" and nb: "nb = float_to_int (rnd (c / den))"
    by (auto split: if_splits)
  have "0 < den" using den dpos by simp
  then have "1 \<le> c / den" using c den by (simp add: field_simps)
  then have "1 \<le> rnd (c / den)" by (rule rnd_ge_1)
  then show ?thesis unfolding nb by (rule float_to_int_ge_1)
qed

lemma int_truediv_1_nonzero:
  "n \<noteq> 0 \<Longrightarrow> \<exists>y. int_truediv 1 n = Inr y"
proof -
  assume n: "n \<noteq> 0"
  then have "\<bar>real_of_int n\<bar> \<ge> 1" by (cases "0 < n") (simp_all add: not_less)
  then have "\<bar>1 / real_of_int n\<bar> \<le> 1" by simp
  then have "\<not> overflows (1 / real_of_int n)" by (rule not_overflows_le_1)
  then show ?thesis using n by (simp add: int_truediv_def)
qed

lemma float_pow_one: "float_pow 1 y = Inr (PFloat 1)"
  by (simp add: float_pow_def overflows_def)

lemma not_overflows_small [simp]:
  "\<not> overflows 1" "\<not> overflows 2" "\<not> overflows 4" "\<not> overflows (1/2)" "\<not> overflows (- 1)"
  by (simp_all add: overflows_def)

lemma init_valid_numBits:
  "BloomFilter_init n d P = Inr s \<Longrightarrow> 1 \<le> n \<Longrightarrow> 1 \<le> d \<Longrightarrow> 0 < P \<Longrightarrow> P < 1 \<Longrightarrow>
   1 \<le> numBits s"
  using bitsNeeded_valid[of n d P]
  by (auto simp: BloomFilter_init_def BitVector_new_def split: sum.splits if_splits)

section \<open>A second insert, and concrete filters\<close>

lemma insert_loop_idem:
  "snd (insert_loop H k i a (snd (insert_loop H k i a s))) = snd (insert_loop H k i a s)"
proof (induction i arbitrary: a s)
  case 0
  show ?case by simp
next
  case (Suc i)
  let ?num = "H k a mod numBits s"
  let ?s1 = "s\<lparr>bitVector := (bitVector s)[nat ?num := True], bitCount := bitCount s + 1\<rparr>"
  show ?case
  proof (cases "numBits s = 0")
    case True
    then show ?thesis by simp
  next
    case nz: False
    show ?thesis
    proof (cases "BitVector_get (bitVector s) ?num")
      case (Inl e)
      then show ?thesis using nz by (simp add: Let_def)
    next
      case (Inr b)
      then have rng: "0 \<le> ?num" "?num < int (length (bitVector s))"
        and b: "b = bitVector s ! nat ?num"
        by (auto simp: BitVector_get_def split: if_splits)
      define s2 where "s2 = (if b then s else ?s1)"
      have step: "insert_loop H k (Suc i) a s = insert_loop H k i (H k a) s2"
        using nz Inr rng by (simp add: Let_def s2_def BitVector_set_def)
      have nb2: "numBits s2 = numBits s" and len2: "length (bitVector s2) = length (bitVector s)"
        by (simp_all add: s2_def)
      have bit2: "bitVector s2 ! nat ?num" using rng b by (simp add: s2_def)
      let ?s3 = "snd (insert_loop H k i (H k a) s2)"
      have "bitVector ?s3 ! nat ?num"
        using rng bit2 len2 by (intro insert_loop_mono) simp_all
      then have "BitVector_get (bitVector ?s3) ?num = Inr True"
        using rng len2 by (simp add: BitVector_get_def)
      then have "insert_loop H k (Suc i) a ?s3 = insert_loop H k i (H k a) ?s3"
        using nz nb2 by (simp add: Let_def)
      then show ?thesis using step Suc.IH[of "H k a" s2] by simp
    qed
  qed
qed

lemma init_1_1_half:
  "BloomFilter_init 1 1 (1/2) =
     Inr \<lparr>numKeys = 1, numHashes = 1, maxFalsePositive = 1/2, numBits = 2,
          bitVector = [False, False], bitCount = 0\<rparr>"
proof -
  have "bitsNeeded 1 1 (1/2) = Inr 2"
    by (simp add: bitsNeeded_def int_truediv_def int_to_float_def float_pow_def
        float_to_int_def)
  moreover have "BitVector_new 2 = Inr [False, False]"
    by (simp add: BitVector_new_def eval_nat_numeral)
  ultimately show ?thesis by (simp add: BloomFilter_init_def)
qed

section \<open>Probe sequences\<close>

lemma spec_probes_length [simp]: "length (spec_probes H k i a nb) = i"
  by (induction i arbitrary: a) simp_all

lemma insert_probes_loop_spec:
  "wf s \<Longrightarrow> 1 \<le> numBits s \<Longrightarrow>
   insert_probes_loop H k i a s = spec_probes H k i a (numBits s)"
proof (induction i arbitrary: a s)
  case 0
  show ?case by simp
next
  case (Suc i)
  let ?num = "H k a mod numBits s"
  let ?s1 = "s\<lparr>bitVector := (bitVector s)[nat ?num := True], bitCount := bitCount s + 1\<rparr>"
  from Suc.prems have nz: "numBits s \<noteq> 0" by simp
  from Suc.prems have rng: "0 \<le> ?num" "?num < int (length (bitVector s))"
    by (simp_all add: wf_def)
  have wf1: "wf ?s1" "1 \<le> numBits ?s1" using Suc.prems by (simp_all add: wf_def)
  have "insert_probes_loop H k i (H k a) ?s1 = spec_probes H k i (H k a) (numBits s)"
    using Suc.IH[OF wf1] by simp
  moreover have "insert_probes_loop H k i (H k a) s = spec_probes H k i (H k a) (numBits s)"
    using Suc.IH[OF Suc.prems] .
  ultimately show ?case using nz rng
    by (simp add: Let_def BitVector_get_def BitVector_set_def)
qed

lemma find_probes_loop_prefix:
  "find_probes_loop H k i a s =
     take (Suc (length (takeWhile (\<lambda>p. BitVector_get (bitVector s) p = Inr True)
                          (insert_probes_loop H k i a s))))
          (insert_probes_loop H k i a s)"
proof (induction i arbitrary: a)
  case 0
  show ?case by simp
next
  case (Suc i)
  let ?num = "H k a mod numBits s"
  show ?case
  proof (cases "numBits s = 0")
    case True
    then show ?thesis by simp
  next
    case nz: False
    show ?thesis
    proof (cases "BitVector_get (bitVector s) ?num")
      case (Inl e)
      then show ?thesis using nz by (simp add: Let_def)
    next
      case (Inr b)
      then have rng: "0 \<le> ?num" "?num < int (length (bitVector s))"
        by (auto simp: BitVector_get_def split: if_splits)
      show ?thesis
      proof (cases b)
        case True
        then show ?thesis using nz Inr Suc.IH[of "H k a"] by (simp add: Let_def)
      next
        case False
        then show ?thesis using nz Inr rng by (simp add: Let_def BitVector_set_def)
      qed
    qed
  qed
qed

lemma find_true_probes_eq:
  "find_loop H k i a s = Inr True \<Longrightarrow>
   find_probes_loop H k i a s = insert_probes_loop H k i a s"
proof (induction i arbitrary: a)
  case 0
  show ?case by simp
next
  case (Suc i)
  let ?num = "H k a mod numBits s"
  from Suc.prems have nz: "numBits s \<noteq> 0"
    by (auto simp: Let_def split: if_splits)
  from Suc.prems nz have get: "BitVector_get (bitVector s) ?num = Inr True"
    and rest: "find_loop H k i (H k a) s = Inr True"
    by (auto simp: Let_def split: sum.splits if_splits)
  from Suc.IH[OF rest] show ?case using nz get by (simp add: Let_def)
qed

lemma sqrt_quarter: "(1/4::real) powr (1/2) = 1/2"
proof -
  have "(1/4::real) powr (1/2) = sqrt (1/4)" by (simp add: powr_half_sqrt)
  also have "\<dots> = 1/2" by (simp add: real_sqrt_divide)
  finally show ?thesis .
qed

lemma init_1_2_quarter:
  "BloomFilter_init 1 2 (1/4) =
     Inr \<lparr>numKeys = 1, numHashes = 2, maxFalsePositive = 1/4, numBits = 4,
          bitVector = [False, False, False, False], bitCount = 0\<rparr>"
proof -
  have "bitsNeeded 1 2 (1/4) = Inr 4"
    by (simp add: bitsNeeded_def int_truediv_def int_to_float_def float_pow_def
        float_to_int_def sqrt_quarter)
  moreover have "BitVector_new 4 = Inr [False, False, False, False]"
    by (simp add: BitVector_new_def eval_nat_numeral)
  ultimately show ?thesis by (simp add: BloomFilter_init_def)
qed

section \<open>The claims\<close>

text \<open>
  Claim C1 (no false negatives). On a filter constructed with \<open>numKeys \<ge> 1\<close>,
  \<open>numHashes \<ge> 1\<close> and \<open>0 < maxFalsePositive < 1\<close>, after any earlier calls
  \<open>cs1\<close>, the call \<open>insert(k)\<close> returns normally, and after any later calls \<open>cs2\<close>
  (inserts of any keys, and reads) \<open>find(k)\<close> returns \<open>True\<close>.
\<close>

theorem no_false_negatives:
  assumes init: "BloomFilter_init n d P = Inr s0"
    and valid: "1 \<le> n" "1 \<le> d" "0 < P" "P < 1"
  shows "fst (insert_key H k (after_calls H cs1 s0)) = Inr () \<and>
         fst (find_key H k (after_calls H (cs1 @ Insert k # cs2) s0)) = Inr True"
proof -
  define s1 where "s1 = after_calls H cs1 s0"
  define s2 where "s2 = snd (insert_key H k s1)"
  define s3 where "s3 = after_calls H cs2 s2"
  have "numHashes s0 = d" using init_fresh[OF init] by simp
  then have nb0: "1 \<le> numBits s0" using init_valid_numBits[OF init valid] valid by simp
  have le01: "bits_le s0 s1" unfolding s1_def by (rule after_calls_bits_le)
  then have nb1: "1 \<le> numBits s1" using nb0 by (simp add: bits_le_def)
  have "inv s1" unfolding s1_def using init_inv[OF init] by (rule after_calls_inv)
  then have wf1: "wf s1" by (simp add: inv_def)
  from insert_loop_ok[OF wf1 nb1, of H k "nat (numHashes s1)" 0]
  have ok: "fst (insert_key H k s1) = Inr ()"
    and fnd: "find_loop H k (nat (numHashes s1)) 0 s2 = Inr True"
    by (simp_all add: insert_key_def s2_def)
  have le23: "bits_le s2 s3" unfolding s3_def by (rule after_calls_bits_le)
  then have "find_loop H k (nat (numHashes s1)) 0 s3 = Inr True"
    using fnd by (rule find_loop_mono)
  moreover have "numHashes s3 = numHashes s1"
    using le23 by (simp add: bits_le_def s2_def insert_key_def)
  ultimately have "fst (find_key H k s3) = Inr True" by (simp add: find_key_def)
  moreover have "after_calls H (cs1 @ Insert k # cs2) s0 = s3"
    by (simp add: after_calls_append after_calls_Cons s1_def s2_def s3_def)
  ultimately show ?thesis using ok by (simp add: s1_def)
qed

theorem no_false_negatives_witness:
  "BloomFilter_init 1 1 (1/2) =
     Inr \<lparr>numKeys = 1, numHashes = 1, maxFalsePositive = 1/2, numBits = 2,
          bitVector = [False, False], bitCount = 0\<rparr> \<and>
   (1::int) \<le> 1 \<and> (0::real) < 1/2 \<and> (1/2::real) < 1 \<and>
   fst (insert_key sample_hash 5
         (after_calls sample_hash [Insert 4]
            \<lparr>numKeys = 1, numHashes = 1, maxFalsePositive = 1/2, numBits = 2,
             bitVector = [False, False], bitCount = 0\<rparr>)) = Inr () \<and>
   fst (find_key sample_hash 5
         (after_calls sample_hash ([Insert 4] @ Insert 5 # [Find 8, Insert 7])
            \<lparr>numKeys = 1, numHashes = 1, maxFalsePositive = 1/2, numBits = 2,
             bitVector = [False, False], bitCount = 0\<rparr>)) = Inr True"
proof -
  have a: "(1::int) \<le> 1" and b: "(0::real) < 1/2" and c: "(1/2::real) < 1" by simp_all
  from no_false_negatives[OF init_1_1_half a a b c, of sample_hash 5 "[Insert 4]" "[Find 8, Insert 7]"]
  show ?thesis using init_1_1_half a b c by blast
qed

text \<open>
  Claim C4 (occupancy accounting). In every state reached from construction by a sequence
  of \<open>insert\<close>, \<open>find\<close>, \<open>numBitsSet\<close> and \<open>falsePositiveRate\<close> calls, the cached
  count equals the number of bits of the vector that hold 1, it lies between 0 and
  \<open>numBits\<close>, the vector has \<open>numBits\<close> bits, and \<open>numBitsSet()\<close>, which returns the
  cached field, returns what a full scan would count.
\<close>

theorem occupancy_invariant:
  assumes init: "BloomFilter_init n d P = Inr s0"
  shows "bitCount (after_calls H cs s0) = ones (bitVector (after_calls H cs s0)) \<and>
         0 \<le> bitCount (after_calls H cs s0) \<and>
         bitCount (after_calls H cs s0) \<le> numBits (after_calls H cs s0) \<and>
         int (length (bitVector (after_calls H cs s0))) = numBits (after_calls H cs s0) \<and>
         fst (numBitsSet (after_calls H cs s0)) = Inr (ones (bitVector (after_calls H cs s0)))"
proof -
  define s where "s = after_calls H cs s0"
  have "inv s" unfolding s_def using init_inv[OF init] by (rule after_calls_inv)
  then have cnt: "bitCount s = ones (bitVector s)"
    and len: "int (length (bitVector s)) = numBits s"
    by (simp_all add: inv_def wf_def)
  have "0 \<le> bitCount s" using cnt ones_nonneg[of "bitVector s"] by simp
  moreover have "bitCount s \<le> numBits s"
    using cnt len ones_le_length[of "bitVector s"] by simp
  ultimately show ?thesis using cnt len by (simp add: numBitsSet_def s_def)
qed

theorem occupancy_invariant_witness:
  "BloomFilter_init 1 1 (1/2) =
     Inr \<lparr>numKeys = 1, numHashes = 1, maxFalsePositive = 1/2, numBits = 2,
          bitVector = [False, False], bitCount = 0\<rparr> \<and>
   bitCount (after_calls sample_hash [Insert 4, FalsePositiveRate, Insert 4, Find 3, NumBitsSet]
      \<lparr>numKeys = 1, numHashes = 1, maxFalsePositive = 1/2, numBits = 2,
       bitVector = [False, False], bitCount = 0\<rparr>) = 1"
proof -
  let ?s = "after_calls sample_hash [Insert 4, FalsePositiveRate, Insert 4, Find 3, NumBitsSet]
      \<lparr>numKeys = 1, numHashes = 1, maxFalsePositive = 1/2, numBits = 2,
       bitVector = [False, False], bitCount = 0\<rparr>"
  have bv: "bitVector ?s = [False, True]"
    by (simp add: after_calls_def insert_key_def find_key_def numBitsSet_def
        falsePositiveRate_def sample_hash_def BitVector_get_def BitVector_set_def Let_def)
  from occupancy_invariant[OF init_1_1_half, of sample_hash
      "[Insert 4, FalsePositiveRate, Insert 4, Find 3, NumBitsSet]"]
  have "bitCount ?s = ones (bitVector ?s)" by blast
  then have "bitCount ?s = 1" unfolding bv by (simp add: ones_def)
  then show ?thesis using init_1_1_half by blast
qed

text \<open>
  Claim C9 (idempotence of insert). In every state, a second \<open>insert(k)\<close> right after
  \<open>insert(k)\<close> changes nothing: the whole state, and so the value of \<open>numBitsSet()\<close>,
  is what the first call left.
\<close>

theorem insert_twice_same_occupancy:
  "snd (insert_key H k (snd (insert_key H k s))) = snd (insert_key H k s) \<and>
   fst (numBitsSet (snd (insert_key H k (snd (insert_key H k s))))) =
   fst (numBitsSet (snd (insert_key H k s)))"
proof -
  have "snd (insert_key H k (snd (insert_key H k s))) = snd (insert_key H k s)"
    by (simp add: insert_key_def insert_loop_idem)
  then show ?thesis by simp
qed

text \<open>
  Claim C10 (find on a fresh filter). On a freshly constructed filter with
  \<open>numHashes \<ge> 1\<close> and \<open>numBits \<ge> 1\<close>, \<open>find(k)\<close> returns \<open>False\<close> for every key,
  after reading the bit vector at the first index only.
\<close>

theorem find_on_fresh_filter:
  assumes init: "BloomFilter_init n d P = Inr s"
    and d: "1 \<le> numHashes s" and nb: "1 \<le> numBits s"
  shows "fst (find_key H k s) = Inr False \<and> find_probes H k s = [H k 0 mod numBits s]"
proof -
  let ?num = "H k 0 mod numBits s"
  from d obtain i where i: "nat (numHashes s) = Suc i"
    by (cases "nat (numHashes s)") auto
  have bv: "bitVector s = replicate (nat (numBits s)) False"
    using init_fresh[OF init] by simp
  have rng: "0 \<le> ?num" "?num < numBits s" using nb by simp_all
  then have "BitVector_get (bitVector s) ?num = Inr False"
    unfolding bv by (simp add: BitVector_get_def)
  then show ?thesis using nb i
    by (simp add: find_key_def find_probes_def Let_def)
qed

theorem find_on_fresh_filter_witness:
  "BloomFilter_init 1 1 (1/2) =
     Inr \<lparr>numKeys = 1, numHashes = 1, maxFalsePositive = 1/2, numBits = 2,
          bitVector = [False, False], bitCount = 0\<rparr> \<and>
   fst (find_key sample_hash 5
     \<lparr>numKeys = 1, numHashes = 1, maxFalsePositive = 1/2, numBits = 2,
      bitVector = [False, False], bitCount = 0\<rparr>) = Inr False"
proof -
  from find_on_fresh_filter[OF init_1_1_half, of sample_hash 5]
  show ?thesis using init_1_1_half by simp
qed

text \<open>
  Claim C6 (pure reads). \<open>find\<close>, \<open>numBitsSet\<close> and \<open>falsePositiveRate\<close> end with the
  object exactly as they found it: every field, the bit vector included, is unchanged.
  Of the four calls only \<open>insert\<close> can change the state.
\<close>

theorem reads_leave_filter_unchanged:
  "snd (find_key H k s) = s \<and> snd (numBitsSet s) = s \<and> snd (falsePositiveRate s) = s \<and>
   after_call H s (Find k) = s \<and> after_call H s NumBitsSet = s \<and>
   after_call H s FalsePositiveRate = s"
  by (simp add: find_key_def numBitsSet_def falsePositiveRate_def)

text \<open>
  Claim C2 (estimator before any insert). The claim asks for a defined result of
  \<open>falsePositiveRate()\<close> when no bit is set. The code divides by the cached count: on the
  filter that \<open>BloomFilter(1, 1, 0.5)\<close> constructs, the call raises
  \<open>ZeroDivisionError\<close>.
\<close>

theorem falsePositiveRate_fresh_raises:
  "BloomFilter_init 1 1 (1/2) =
     Inr \<lparr>numKeys = 1, numHashes = 1, maxFalsePositive = 1/2, numBits = 2,
          bitVector = [False, False], bitCount = 0\<rparr> \<and>
   fst (falsePositiveRate
     \<lparr>numKeys = 1, numHashes = 1, maxFalsePositive = 1/2, numBits = 2,
      bitVector = [False, False], bitCount = 0\<rparr>) = Inl ZeroDivisionError"
  using init_1_1_half by (simp add: falsePositiveRate_def int_truediv_def)

text \<open>
  Claim C3, as stated, fails: \<^verbatim>\<open>__init__\<close> checks nothing. With
  \<open>maxFalsePositive = 2\<close> the computed length is \<open>int(0.5) = 0\<close> and a filter with an
  empty bit vector is produced; with \<open>maxFalsePositive = 1\<close> a filter of one bit is
  produced.
\<close>

theorem init_accepts_invalid_parameters:
  "BloomFilter_init 1 1 2 =
     Inr \<lparr>numKeys = 1, numHashes = 1, maxFalsePositive = 2, numBits = 0,
          bitVector = [], bitCount = 0\<rparr> \<and>
   BloomFilter_init 1 1 1 =
     Inr \<lparr>numKeys = 1, numHashes = 1, maxFalsePositive = 1, numBits = 1,
          bitVector = [False], bitCount = 0\<rparr>"
proof -
  have "bitsNeeded 1 1 2 = Inr 0"
    by (simp add: bitsNeeded_def int_truediv_def int_to_float_def float_pow_def
        float_to_int_def)
  moreover have "bitsNeeded 1 1 1 = Inr 1"
    by (simp add: bitsNeeded_def int_truediv_def int_to_float_def float_pow_def
        float_to_int_def)
  ultimately show ?thesis by (simp add: BloomFilter_init_def BitVector_new_def)
qed

text \<open>
  Claim C3, amended. Construction fails with \<open>ZeroDivisionError\<close>, and no filter is
  produced, when \<open>numHashes = 0\<close>, when \<open>numKeys = 0\<close> (for \<open>numHashes \<ge> 1\<close> and
  \<open>maxFalsePositive\<close> in \<open>[0, 1]\<close>), and when \<open>maxFalsePositive = 0\<close> (for
  \<open>numHashes\<close> from 1 to \<open>2 ^ 1023\<close>): the sizing arithmetic divides by zero there.
\<close>

theorem init_raises_ZeroDivisionError:
  assumes "d = 0 \<or> (n = 0 \<and> 1 \<le> d \<and> 0 \<le> P \<and> P \<le> 1) \<or> (P = 0 \<and> 1 \<le> d \<and> d \<le> 2 ^ 1023)"
  shows "BloomFilter_init n d P = Inl ZeroDivisionError"
proof -
  have "bitsNeeded n d P = Inl ZeroDivisionError"
  proof (cases "d = 0")
    case True
    then show ?thesis by (simp add: bitsNeeded_def int_truediv_def)
  next
    case False
    then have d: "1 \<le> d" using assms by auto
    from int_truediv_unit[OF d] obtain y1
      where y1: "int_truediv 1 d = Inr y1" "0 \<le> y1" "y1 = rnd (1 / real_of_int d)"
      by (auto simp: int_truediv_def split: if_splits)
    show ?thesis
    proof (cases "n = 0 \<and> 0 \<le> P \<and> P \<le> 1")
      case True
      with float_pow_unit[of P y1] y1 obtain t where "float_pow P y1 = Inr (PFloat t)" by auto
      then show ?thesis using y1 True by (simp add: bitsNeeded_def int_truediv_def)
    next
      case no: False
      then have P: "P = 0" and dmax: "d \<le> 2 ^ 1023" using assms False by auto
      have "real_of_int d \<le> 2 ^ 1023" using dmax by (metis of_int_le_iff of_int_numeral of_int_power)
      then have dr: "real_of_int d \<le> 2 powr real_of_int 1023"
        by (simp add: powr_realpow)
      have "1 / 2 powr real_of_int 1023 \<le> 1 / real_of_int d"
        using dr d by (intro divide_left_mono) simp_all
      then have "2 powr real_of_int (- 1023) \<le> 1 / real_of_int d"
        by (simp add: powr_minus_divide)
      then have "2 powr real_of_int (- 1023) \<le> y1"
        unfolding y1(3) by (intro rnd_ge_pow2) simp_all
      then have y1pos: "0 < y1" by (smt (verit) powr_gt_zero)
      have t: "float_pow P y1 = Inr (PFloat 0)" using P y1pos by (simp add: float_pow_def)
      have "rnd (real_of_int d) \<le> 2 powr real_of_int 1023"
        using dr d by (intro rnd_le_pow2) simp_all
      moreover have "0 \<le> rnd (real_of_int d)" using d by (intro rnd_nonneg) simp
      moreover have "(2::real) powr real_of_int 1023 < 2 ^ 1024" by (simp add: powr_realpow)
      ultimately have c: "\<not> overflows (real_of_int d)" by (simp add: overflows_def)
      show ?thesis
      proof (cases "n = 0")
        case True
        then show ?thesis using y1 t by (simp add: bitsNeeded_def int_truediv_def)
      next
        case False
        from int_truediv_1_nonzero[OF False] obtain y2 where "int_truediv 1 n = Inr y2" ..
        then show ?thesis using y1 t c
          by (simp add: bitsNeeded_def float_pow_one int_to_float_def)
      qed
    qed
  qed
  then show ?thesis by (simp add: BloomFilter_init_def)
qed

theorem init_raises_ZeroDivisionError_witness:
  "((0::int) = 0 \<or> ((1::int) = 0 \<and> (1::int) \<le> 0 \<and> (0::real) \<le> 1/2 \<and> (1/2::real) \<le> 1)
      \<or> ((1/2::real) = 0 \<and> (1::int) \<le> 0 \<and> (0::int) \<le> 2 ^ 1023)) \<and>
   BloomFilter_init 1 0 (1/2) = Inl ZeroDivisionError \<and>
   BloomFilter_init 0 1 (1/2) = Inl ZeroDivisionError \<and>
   BloomFilter_init 1 1 0 = Inl ZeroDivisionError"
proof -
  have "BloomFilter_init 1 0 (1/2) = Inl ZeroDivisionError"
    using init_raises_ZeroDivisionError[of 0 1 "1/2"] by simp
  moreover have "BloomFilter_init 0 1 (1/2) = Inl ZeroDivisionError"
    using init_raises_ZeroDivisionError[of 1 0 "1/2"] by simp
  moreover have "BloomFilter_init 1 1 0 = Inl ZeroDivisionError"
    using init_raises_ZeroDivisionError[of 1 1 0] by simp
  ultimately show ?thesis by simp
qed

text \<open>
  Claim C5, as stated, fails: \<open>find\<close> returns at the first probed bit that is 0, so it
  does not always run \<open>numHashes\<close> iterations. On the fresh filter of
  \<open>BloomFilter(1, 2, 0.25)\<close> (4 bits, 2 hashes) \<open>insert(0)\<close> probes the indices 1 and 2,
  and \<open>find(0)\<close> probes index 1 only.
\<close>

theorem find_stops_before_insert:
  "BloomFilter_init 1 2 (1/4) =
     Inr \<lparr>numKeys = 1, numHashes = 2, maxFalsePositive = 1/4, numBits = 4,
          bitVector = [False, False, False, False], bitCount = 0\<rparr> \<and>
   insert_probes sample_hash 0
     \<lparr>numKeys = 1, numHashes = 2, maxFalsePositive = 1/4, numBits = 4,
      bitVector = [False, False, False, False], bitCount = 0\<rparr> = [1, 2] \<and>
   find_probes sample_hash 0
     \<lparr>numKeys = 1, numHashes = 2, maxFalsePositive = 1/4, numBits = 4,
      bitVector = [False, False, False, False], bitCount = 0\<rparr> = [1] \<and>
   find_probes sample_hash 0
     \<lparr>numKeys = 1, numHashes = 2, maxFalsePositive = 1/4, numBits = 4,
      bitVector = [False, False, False, False], bitCount = 0\<rparr> \<noteq>
   insert_probes sample_hash 0
     \<lparr>numKeys = 1, numHashes = 2, maxFalsePositive = 1/4, numBits = 4,
      bitVector = [False, False, False, False], bitCount = 0\<rparr>"
  using init_1_2_quarter
  by (simp add: insert_probes_def find_probes_def sample_hash_def eval_nat_numeral
      BitVector_get_def BitVector_set_def Let_def)

text \<open>
  Claim C5, amended. On every filter reached from a construction with \<open>numBits \<ge> 1\<close>,
  \<open>insert(k)\<close> performs exactly \<open>numHashes\<close> iterations and probes the indices of the
  spec's chain (seed 0, \<open>h = hash(key, a)\<close>, index \<open>h mod numBits\<close>, then \<open>a = h\<close>);
  \<open>find(k)\<close> follows the same chain and stops after the first probed bit that is 0, so
  its probe sequence is the initial segment of insert's sequence up to and including the
  first index whose bit is 0, and the whole sequence when there is none; right after
  \<open>insert(k)\<close> the two sequences are identical.
\<close>

theorem find_probes_prefix_of_insert_probes:
  assumes init: "BloomFilter_init n d P = Inr s0" and nb: "1 \<le> numBits s0"
  shows "insert_probes H k (after_calls H cs s0) =
           spec_probes H k (nat (numHashes (after_calls H cs s0))) 0
             (numBits (after_calls H cs s0)) \<and>
         length (insert_probes H k (after_calls H cs s0)) =
           nat (numHashes (after_calls H cs s0)) \<and>
         find_probes H k (after_calls H cs s0) =
           take (Suc (length (takeWhile
                   (\<lambda>p. BitVector_get (bitVector (after_calls H cs s0)) p = Inr True)
                   (insert_probes H k (after_calls H cs s0)))))
             (insert_probes H k (after_calls H cs s0)) \<and>
         find_probes H k (after_calls H (cs @ [Insert k]) s0) =
           insert_probes H k (after_calls H (cs @ [Insert k]) s0)"
proof -
  define s where "s = after_calls H cs s0"
  define s' where "s' = snd (insert_key H k s)"
  have "bits_le s0 s" unfolding s_def by (rule after_calls_bits_le)
  then have nbs: "1 \<le> numBits s" using nb by (simp add: bits_le_def)
  have "inv s" unfolding s_def using init_inv[OF init] by (rule after_calls_inv)
  then have wfs: "wf s" by (simp add: inv_def)
  have a: "insert_probes H k s = spec_probes H k (nat (numHashes s)) 0 (numBits s)"
    using insert_probes_loop_spec[OF wfs nbs] by (simp add: insert_probes_def)
  have l: "length (insert_probes H k s) = nat (numHashes s)" by (simp add: a)
  have b: "find_probes H k s =
      take (Suc (length (takeWhile (\<lambda>p. BitVector_get (bitVector s) p = Inr True)
                           (insert_probes H k s))))
        (insert_probes H k s)"
    unfolding find_probes_def insert_probes_def by (rule find_probes_loop_prefix)
  have "find_loop H k (nat (numHashes s)) 0 s' = Inr True"
    using insert_loop_ok[OF wfs nbs, of H k "nat (numHashes s)" 0]
    by (simp add: s'_def insert_key_def)
  moreover have "numHashes s' = numHashes s" by (simp add: s'_def insert_key_def)
  ultimately have c: "find_probes H k s' = insert_probes H k s'"
    by (simp add: find_probes_def insert_probes_def find_true_probes_eq)
  have "after_calls H (cs @ [Insert k]) s0 = s'"
    by (simp add: after_calls_def s_def s'_def)
  then show ?thesis using a l b c unfolding s_def by blast
qed

theorem find_probes_prefix_of_insert_probes_witness:
  "BloomFilter_init 1 2 (1/4) =
     Inr \<lparr>numKeys = 1, numHashes = 2, maxFalsePositive = 1/4, numBits = 4,
          bitVector = [False, False, False, False], bitCount = 0\<rparr> \<and>
   (1::int) \<le> numBits \<lparr>numKeys = 1, numHashes = 2, maxFalsePositive = 1/4, numBits = 4,
          bitVector = [False, False, False, False], bitCount = 0\<rparr> \<and>
   find_probes sample_hash 0 (after_calls sample_hash ([Insert 3] @ [Insert 0])
     \<lparr>numKeys = 1, numHashes = 2, maxFalsePositive = 1/4, numBits = 4,
      bitVector = [False, False, False, False], bitCount = 0\<rparr>) =
   insert_probes sample_hash 0 (after_calls sample_hash ([Insert 3] @ [Insert 0])
     \<lparr>numKeys = 1, numHashes = 2, maxFalsePositive = 1/4, numBits = 4,
      bitVector = [False, False, False, False], bitCount = 0\<rparr>)"
proof -
  have h: "(1::int) \<le> numBits \<lparr>numKeys = 1, numHashes = 2, maxFalsePositive = 1/4, numBits = 4,
          bitVector = [False, False, False, False], bitCount = 0\<rparr>" by simp
  from find_probes_prefix_of_insert_probes[OF init_1_2_quarter h, of sample_hash 0 "[Insert 3]"]
  show ?thesis using init_1_2_quarter h by blast
qed

end
